theory Spec2Isabelle
  imports Main
begin

section \<open>Source snippets around violation lines (diff_cover/snippets.py)\<close>

subsection \<open>Constants, errors and the snippet object\<close>

text \<open>Number of extra lines to include before and after each snippet.\<close>

definition NUM_CONTEXT_LINES :: int where
  "NUM_CONTEXT_LINES = 4"

text \<open>Maximum distance between two violations within a snippet.\<close>

definition MAX_GAP_IN_SNIPPET :: int where
  "MAX_GAP_IN_SNIPPET = 4"

text \<open>
  The two exceptions the module can raise: \<open>ValueError\<close> from the constructor and
  \<open>IOError\<close> from opening the source file.
\<close>

datatype error = ValueError | IOError

text \<open>
  The attributes \<open>_src_str\<close>, \<open>_src_filename\<close>, \<open>_start_line\<close> and
  \<open>_violation_lines\<close> of a \<open>Snippet\<close> instance.
\<close>

record Snippet =
  snippet_src_str :: string
  snippet_src_filename :: string
  snippet_start_line :: int
  snippet_violation_lines :: "int list"

text \<open>\<open>Snippet.__init__\<close>: raises \<open>ValueError\<close> when \<open>start_line < 1\<close>.\<close>

definition Snippet_init :: "string \<Rightarrow> string \<Rightarrow> int \<Rightarrow> int list \<Rightarrow> error + Snippet" where
  "Snippet_init src_str src_filename start_line violation_lines =
     (if start_line < 1 then Inl ValueError
      else Inr \<lparr>snippet_src_str = src_str,
                snippet_src_filename = src_filename,
                snippet_start_line = start_line,
                snippet_violation_lines = violation_lines\<rparr>)"

subsection \<open>The sweep over the line numbers: \<open>Snippet._snippet_ranges\<close>\<close>

text \<open>
  The loop-scoped variables of \<open>_snippet_ranges\<close>: the pair \<open>current_range\<close>
  (each component \<open>None\<close> or a line number), the counter
  \<open>lines_since_last_violation\<close> and the list \<open>snippet_ranges\<close> built so far.
\<close>

record sweep_state =
  current_range :: "int option \<times> int option"
  lines_since_last_violation :: int
  snippet_ranges_acc :: "(int \<times> int) list"

definition sweep_init :: sweep_state where
  "sweep_init = \<lparr>current_range = (None, None),
                  lines_since_last_violation = 0,
                  snippet_ranges_acc = []\<rparr>"

text \<open>One iteration of the \<open>for line_num in range(1, num_src_lines + 1)\<close> loop.\<close>

definition sweep_line :: "int \<Rightarrow> int list \<Rightarrow> int \<Rightarrow> sweep_state \<Rightarrow> sweep_state" where
  "sweep_line num_src_lines violation_lines line_num st =
     (let st1 =
        (case fst (current_range st) of
           None \<Rightarrow>
             (if line_num \<in> set violation_lines then
                st\<lparr>current_range := (Some (max 1 (line_num - NUM_CONTEXT_LINES)), None),
                   lines_since_last_violation := 0\<rparr>
              else st)
         | Some snippet_start \<Rightarrow>
             (case snd (current_range st) of
                None \<Rightarrow>
                  (if line_num \<in> set violation_lines then
                     st\<lparr>lines_since_last_violation := 0\<rparr>
                   else if lines_since_last_violation st > MAX_GAP_IN_SNIPPET then
                     (let snippet_end = line_num - lines_since_last_violation st;
                          snippet_end' = min num_src_lines (snippet_end + NUM_CONTEXT_LINES)
                      in st\<lparr>snippet_ranges_acc :=
                              snippet_ranges_acc st @ [(snippet_start, snippet_end')],
                            current_range := (None, None)\<rparr>)
                   else st)
              | Some _ \<Rightarrow> st))
      in st1\<lparr>lines_since_last_violation := lines_since_last_violation st1 + 1\<rparr>)"

text \<open>The state after the loop has visited the lines \<open>1..k\<close>.\<close>

definition sweep :: "int \<Rightarrow> int list \<Rightarrow> int \<Rightarrow> sweep_state" where
  "sweep num_src_lines violation_lines k =
     fold (sweep_line num_src_lines violation_lines) [1..k] sweep_init"

text \<open>
  \<open>_snippet_ranges\<close>: the whole loop, then the closing of a snippet that was
  started but not finished.
\<close>

definition snippet_ranges :: "int \<Rightarrow> int list \<Rightarrow> (int \<times> int) list" where
  "snippet_ranges num_src_lines violation_lines =
     (let st = sweep num_src_lines violation_lines num_src_lines
      in case current_range st of
           (Some snippet_start, None) \<Rightarrow>
             snippet_ranges_acc st @ [(snippet_start, num_src_lines)]
         | _ \<Rightarrow> snippet_ranges_acc st)"

subsection \<open>\<open>Snippet._shift_lines\<close>\<close>

text \<open>
  The list comprehension
  \<open>[line_num - start_line + 1 for line_num in line_num_list if line_num >= start_line]\<close>,
  as the loop it abbreviates.
\<close>

fun shift_lines :: "int list \<Rightarrow> int \<Rightarrow> int list" where
  "shift_lines [] start_line = []"
| "shift_lines (line_num # line_num_list) start_line =
     (if line_num \<ge> start_line
      then (line_num - start_line + 1) # shift_lines line_num_list start_line
      else shift_lines line_num_list start_line)"

subsection \<open>\<open>Snippet.load_snippets\<close>\<close>

text \<open>\<open>str.split('\n')\<close>: the segments between newline characters; never empty.\<close>

fun split_newline :: "string \<Rightarrow> string list" where
  "split_newline [] = [[]]"
| "split_newline (c # cs) =
     (if c = CHR 0x0A then [] # split_newline cs
      else (case split_newline cs of
              seg # segs \<Rightarrow> (c # seg) # segs
            | [] \<Rightarrow> [[c]]))"

text \<open>\<open>"\n".join(...)\<close>.\<close>

fun join_newline :: "string list \<Rightarrow> string" where
  "join_newline [] = []"
| "join_newline [s] = s"
| "join_newline (s # t # ss) = s @ CHR 0x0A # join_newline (t # ss)"

text \<open>
  A bound of a Python slice, brought into \<open>0..len\<close>: a negative bound counts from
  the end, and every bound is clamped.
\<close>

definition slice_bound :: "int \<Rightarrow> int \<Rightarrow> nat" where
  "slice_bound len i = nat (if i < 0 then max 0 (len + i) else min len i)"

text \<open>The slice \<open>xs[lo:hi]\<close>.\<close>

definition py_slice :: "'a list \<Rightarrow> int \<Rightarrow> int \<Rightarrow> 'a list" where
  "py_slice xs lo hi =
     (let len = int (length xs);
          l = slice_bound len lo;
          h = slice_bound len hi
      in take (h - l) (drop l xs))"

text \<open>
  The list comprehension of \<open>load_snippets\<close> that builds one \<open>Snippet\<close> per range:
  the first constructor call that raises ends it.
\<close>

fun make_snippets :: "string list \<Rightarrow> string \<Rightarrow> int list \<Rightarrow> (int \<times> int) list
    \<Rightarrow> error + Snippet list" where
  "make_snippets src_lines src_path violation_lines [] = Inr []"
| "make_snippets src_lines src_path violation_lines ((start, end) # ranges) =
     (case Snippet_init (join_newline (py_slice src_lines (start - 1) end))
             src_path start violation_lines of
        Inl e \<Rightarrow> Inl e
      | Inr snippet \<Rightarrow>
          (case make_snippets src_lines src_path violation_lines ranges of
             Inl e \<Rightarrow> Inl e
           | Inr snippets \<Rightarrow> Inr (snippet # snippets)))"

text \<open>
  \<open>load_snippets\<close>. The file system is a map from paths to file contents; a path
  outside its domain cannot be opened, which raises \<open>IOError\<close>.
\<close>

definition load_snippets :: "(string \<rightharpoonup> string) \<Rightarrow> string \<Rightarrow> int list
    \<Rightarrow> error + Snippet list" where
  "load_snippets fs src_path violation_lines =
     (case fs src_path of
        None \<Rightarrow> Inl IOError
      | Some contents \<Rightarrow>
          (let src_lines = split_newline contents;
               ranges = snippet_ranges (int (length src_lines)) violation_lines
           in make_snippets src_lines src_path violation_lines ranges))"

subsection \<open>Invariant of the sweep\<close>

text \<open>
  The predicates below are not part of the program: they state what holds of the loop
  variables after the lines \<open>1..k\<close> have been visited. \<open>V\<close> is the list of
  flagged lines and 4 stands for both constants.

  \<open>before r1 r2\<close>: how an earlier range relates to a later one. Starts and ends
  increase, and the later range starts at most 2 lines before the end of the earlier.
\<close>

definition before :: "int \<times> int \<Rightarrow> int \<times> int \<Rightarrow> bool" where
  "before r1 r2 \<longleftrightarrow> fst r1 < fst r2 \<and> snd r1 < snd r2 \<and> snd r1 - 2 \<le> fst r2"

text \<open>
  A range already stored in the list: it was closed at line \<open>snd r + 1 \<le> k\<close>; its
  last flagged line is \<open>snd r - 4\<close>; its start is the clamped start of some flagged
  line; every flagged line in it has its full context in it; and every flagged line in it
  but the last has another flagged line at most 5 lines later.
\<close>

definition range_ok :: "int list \<Rightarrow> int \<Rightarrow> int \<times> int \<Rightarrow> bool" where
  "range_ok V k r \<longleftrightarrow>
     1 \<le> fst r \<and> fst r + 4 \<le> snd r \<and> snd r + 1 \<le> k \<and>
     (\<forall>f\<in>set V. fst r \<le> f \<and> f \<le> snd r \<longrightarrow> fst r \<le> max 1 (f - 4) \<and> f + 4 \<le> snd r) \<and>
     (\<forall>f\<in>set V. fst r \<le> f \<and> f + 4 < snd r \<longrightarrow> (\<exists>i\<in>set V. f < i \<and> i \<le> f + 5)) \<and>
     (\<exists>f\<in>set V. 1 \<le> f \<and> f \<le> snd r \<and> fst r = max 1 (f - 4)) \<and>
     snd r - 4 \<in> set V"

text \<open>No snippet is started: the last five lines visited are not flagged.\<close>

definition idle_ok :: "int list \<Rightarrow> int \<Rightarrow> bool" where
  "idle_ok V k \<longleftrightarrow> (\<forall>j. 1 \<le> j \<and> k - 4 \<le> j \<and> j \<le> k \<longrightarrow> j \<notin> set V)"

text \<open>
  A snippet with start \<open>s\<close> is started and the counter is \<open>d\<close>: the last flagged
  line is \<open>k + 1 - d\<close>, no line after it is flagged, and the started snippet relates
  to the flagged lines and to the stored ranges as a stored range does.
\<close>

definition open_ok :: "int list \<Rightarrow> int \<Rightarrow> (int \<times> int) list \<Rightarrow> int \<Rightarrow> int \<Rightarrow> bool" where
  "open_ok V k rs d s \<longleftrightarrow>
     1 \<le> d \<and> d \<le> 5 \<and> k + 1 - d \<in> set V \<and> 1 \<le> s \<and> s \<le> k + 1 - d \<and>
     (\<forall>j. k + 1 - d < j \<and> j \<le> k \<longrightarrow> j \<notin> set V) \<and>
     (\<forall>f\<in>set V. s \<le> f \<and> f \<le> k \<longrightarrow> s \<le> max 1 (f - 4)) \<and>
     (\<forall>f\<in>set V. s \<le> f \<and> f < k + 1 - d \<longrightarrow> (\<exists>i\<in>set V. f < i \<and> i \<le> f + 5)) \<and>
     (\<forall>r\<in>set rs. fst r < s \<and> snd r - 2 \<le> s) \<and>
     (\<exists>f\<in>set V. 1 \<le> f \<and> f \<le> k \<and> s = max 1 (f - 4))"

text \<open>Every flagged line visited so far lies in a stored range or in the started snippet.\<close>

definition covered :: "int list \<Rightarrow> int \<Rightarrow> (int \<times> int) list \<Rightarrow> int option \<Rightarrow> bool" where
  "covered V k rs cur \<longleftrightarrow>
     (\<forall>f\<in>set V. 1 \<le> f \<and> f \<le> k \<longrightarrow>
        (\<exists>r\<in>set rs. fst r \<le> f \<and> f \<le> snd r) \<or> (\<exists>s. cur = Some s \<and> s \<le> f))"

text \<open>The invariant of the loop after line \<open>k\<close>.\<close>

definition sweep_inv :: "int list \<Rightarrow> int \<Rightarrow> sweep_state \<Rightarrow> bool" where
  "sweep_inv V k st \<longleftrightarrow>
     (\<forall>r\<in>set (snippet_ranges_acc st). range_ok V k r) \<and>
     sorted_wrt before (snippet_ranges_acc st) \<and>
     covered V k (snippet_ranges_acc st) (fst (current_range st)) \<and>
     snd (current_range st) = None \<and>
     (case fst (current_range st) of
        None \<Rightarrow> idle_ok V k
      | Some s \<Rightarrow> open_ok V k (snippet_ranges_acc st) (lines_since_last_violation st) s)"

text \<open>What the invariant gives for a range of the returned list.\<close>

definition result_ok :: "int list \<Rightarrow> int \<Rightarrow> int \<times> int \<Rightarrow> bool" where
  "result_ok V n r \<longleftrightarrow>
     1 \<le> fst r \<and> fst r \<le> snd r \<and> snd r \<le> n \<and>
     (\<exists>f\<in>set V. 1 \<le> f \<and> f \<le> n \<and> fst r = max 1 (f - 4)) \<and>
     (\<exists>f\<in>set V. 1 \<le> f \<and> f \<le> n \<and> snd r = min n (f + 4)) \<and>
     (\<forall>f\<in>set V. fst r \<le> f \<and> f \<le> snd r \<longrightarrow>
        fst r \<le> max 1 (f - 4) \<and> min n (f + 4) \<le> snd r) \<and>
     (\<forall>f\<in>set V. fst r \<le> f \<and> f + 4 < snd r \<longrightarrow> (\<exists>i\<in>set V. f < i \<and> i \<le> f + 5))"

section \<open>The sweep keeps its invariant\<close>

text \<open>The loop, one line at a time, and the five ways an iteration can go.\<close>

lemma sweep_nonpos: "k \<le> 0 \<Longrightarrow> sweep n V k = sweep_init"
  by (simp add: sweep_def)

lemma sweep_Suc: "0 \<le> k \<Longrightarrow> sweep n V (k + 1) = sweep_line n V (k + 1) (sweep n V k)"
  by (simp add: sweep_def upto_rec2)

lemma sweep_inv_init: "sweep_inv V 0 sweep_init"
  by (auto simp add: sweep_inv_def sweep_init_def covered_def idle_ok_def)

lemma range_ok_mono: "range_ok V k r \<Longrightarrow> k \<le> k' \<Longrightarrow> range_ok V k' r"
  by (simp add: range_ok_def)

lemma sweep_line_idle_hit:
  assumes "current_range st = (None, None)" "l \<in> set V"
  shows "sweep_line n V l st =
    st\<lparr>current_range := (Some (max 1 (l - 4)), None), lines_since_last_violation := 1\<rparr>"
  using assms by (simp add: sweep_line_def NUM_CONTEXT_LINES_def)

lemma sweep_line_idle_miss:
  assumes "current_range st = (None, None)" "l \<notin> set V"
  shows "sweep_line n V l st =
    st\<lparr>lines_since_last_violation := lines_since_last_violation st + 1\<rparr>"
  using assms by (simp add: sweep_line_def)

lemma sweep_line_open_hit:
  assumes "current_range st = (Some s, None)" "l \<in> set V"
  shows "sweep_line n V l st = st\<lparr>lines_since_last_violation := 1\<rparr>"
  using assms by (simp add: sweep_line_def)

lemma sweep_line_open_wait:
  assumes "current_range st = (Some s, None)" "l \<notin> set V" "lines_since_last_violation st \<le> 4"
  shows "sweep_line n V l st =
    st\<lparr>lines_since_last_violation := lines_since_last_violation st + 1\<rparr>"
  using assms by (simp add: sweep_line_def MAX_GAP_IN_SNIPPET_def)

lemma sweep_line_open_close:
  assumes "current_range st = (Some s, None)" "l \<notin> set V" "lines_since_last_violation st > 4"
  shows "sweep_line n V l st =
    st\<lparr>snippet_ranges_acc := snippet_ranges_acc st @
          [(s, min n (l - lines_since_last_violation st + 4))],
       current_range := (None, None),
       lines_since_last_violation := lines_since_last_violation st + 1\<rparr>"
  using assms by (simp add: sweep_line_def MAX_GAP_IN_SNIPPET_def NUM_CONTEXT_LINES_def Let_def)

lemma ranges_ok_step: "\<forall>r\<in>set rs. range_ok V k r \<Longrightarrow> \<forall>r\<in>set rs. range_ok V (k + 1) r"
  using range_ok_mono [of V k _ "k + 1"] by simp

lemma sweep_inv_idle_hit:
  assumes inv: "sweep_inv V k st" and k: "0 \<le> k"
    and cur: "fst (current_range st) = None" and hit: "k + 1 \<in> set V"
  shows "sweep_inv V (k + 1)
    (st\<lparr>current_range := (Some (max 1 (k + 1 - 4)), None), lines_since_last_violation := 1\<rparr>)"
proof -
  let ?rs = "snippet_ranges_acc st"
  from inv cur have ok: "\<forall>r\<in>set ?rs. range_ok V k r" and srt: "sorted_wrt before ?rs"
    and cov: "covered V k ?rs None" and idle: "idle_ok V k"
    by (simp_all add: sweep_inv_def)
  have 1: "\<forall>r\<in>set ?rs. range_ok V (k + 1) r"
    using ok by (rule ranges_ok_step)
  have 2: "covered V (k + 1) ?rs (Some (max 1 (k + 1 - 4)))"
    unfolding covered_def
  proof (intro ballI impI)
    fix f assume f: "f \<in> set V" "1 \<le> f \<and> f \<le> k + 1"
    show "(\<exists>r\<in>set ?rs. fst r \<le> f \<and> f \<le> snd r) \<or>
          (\<exists>s. Some (max 1 (k + 1 - 4)) = Some s \<and> s \<le> f)"
    proof (cases "f = k + 1")
      case True
      then show ?thesis using k by simp
    next
      case False
      with f cov show ?thesis by (simp add: covered_def)
    qed
  qed
  have none: "\<And>j. 1 \<le> j \<Longrightarrow> k - 4 \<le> j \<Longrightarrow> j \<le> k \<Longrightarrow> j \<notin> set V"
    using idle by (simp add: idle_ok_def)
  have 3: "open_ok V (k + 1) ?rs 1 (max 1 (k + 1 - 4))"
    unfolding open_ok_def
  proof (intro conjI ballI impI allI)
    fix f assume f: "f \<in> set V" "max 1 (k + 1 - 4) \<le> f \<and> f \<le> k + 1"
    then have "f = k + 1" using none [of f] by (cases "f \<le> k") auto
    then show "max 1 (k + 1 - 4) \<le> max 1 (f - 4)" by simp
  next
    fix f assume f: "f \<in> set V" "max 1 (k + 1 - 4) \<le> f \<and> f < k + 1 + 1 - 1"
    then have False using none [of f] by auto
    then show "\<exists>i\<in>set V. f < i \<and> i \<le> f + 5" ..
  next
    fix r assume "r \<in> set ?rs"
    with ok have "range_ok V k r" by blast
    then show "fst r < max 1 (k + 1 - 4)" "snd r - 2 \<le> max 1 (k + 1 - 4)"
      by (auto simp: range_ok_def)
  next
    show "\<exists>f\<in>set V. 1 \<le> f \<and> f \<le> k + 1 \<and> max 1 (k + 1 - 4) = max 1 (f - 4)"
      using hit k by (intro bexI [of _ "k + 1"]) auto
  qed (use hit k in \<open>auto simp: algebra_simps\<close>)
  show ?thesis
    using 1 2 3 srt by (simp add: sweep_inv_def)
qed

lemma sweep_inv_idle_miss:
  assumes inv: "sweep_inv V k st" and k: "0 \<le> k"
    and cur: "fst (current_range st) = None" and miss: "k + 1 \<notin> set V"
  shows "sweep_inv V (k + 1)
    (st\<lparr>lines_since_last_violation := lines_since_last_violation st + 1\<rparr>)"
proof -
  let ?rs = "snippet_ranges_acc st"
  from inv cur have ok: "\<forall>r\<in>set ?rs. range_ok V k r" and srt: "sorted_wrt before ?rs"
    and cov: "covered V k ?rs None" and idle: "idle_ok V k"
    and snd: "snd (current_range st) = None"
    by (simp_all add: sweep_inv_def)
  have 1: "\<forall>r\<in>set ?rs. range_ok V (k + 1) r"
    using ok by (rule ranges_ok_step)
  have 2: "covered V (k + 1) ?rs None"
    unfolding covered_def
  proof (intro ballI impI)
    fix f assume f: "f \<in> set V" "1 \<le> f \<and> f \<le> k + 1"
    with miss have "f \<le> k" by (cases "f = k + 1") auto
    with f cov show "(\<exists>r\<in>set ?rs. fst r \<le> f \<and> f \<le> snd r) \<or> (\<exists>s. None = Some s \<and> s \<le> f)"
      by (simp add: covered_def)
  qed
  have 3: "idle_ok V (k + 1)"
    unfolding idle_ok_def
  proof (intro allI impI)
    fix j assume j: "1 \<le> j \<and> k + 1 - 4 \<le> j \<and> j \<le> k + 1"
    show "j \<notin> set V"
    proof (cases "j = k + 1")
      case True
      with miss show ?thesis by simp
    next
      case False
      with j idle show ?thesis by (simp add: idle_ok_def)
    qed
  qed
  show ?thesis
    using 1 2 3 srt cur snd by (simp add: sweep_inv_def)
qed


lemma sweep_inv_open_hit:
  assumes inv: "sweep_inv V k st" and k: "0 \<le> k"
    and cur: "fst (current_range st) = Some s" and hit: "k + 1 \<in> set V"
  shows "sweep_inv V (k + 1) (st\<lparr>lines_since_last_violation := 1\<rparr>)"
proof -
  let ?rs = "snippet_ranges_acc st"
  let ?d = "lines_since_last_violation st"
  from inv cur have ok: "\<forall>r\<in>set ?rs. range_ok V k r" and srt: "sorted_wrt before ?rs"
    and cov: "covered V k ?rs (Some s)" and opn: "open_ok V k ?rs ?d s"
    and snd: "snd (current_range st) = None"
    by (simp_all add: sweep_inv_def)
  from opn have d: "1 \<le> ?d" "?d \<le> 5" and last: "k + 1 - ?d \<in> set V"
    and s: "1 \<le> s" "s \<le> k + 1 - ?d"
    and none: "\<And>j. k + 1 - ?d < j \<Longrightarrow> j \<le> k \<Longrightarrow> j \<notin> set V"
    and lead: "\<And>f. f \<in> set V \<Longrightarrow> s \<le> f \<Longrightarrow> f \<le> k \<Longrightarrow> s \<le> max 1 (f - 4)"
    and gap: "\<And>f. f \<in> set V \<Longrightarrow> s \<le> f \<Longrightarrow> f < k + 1 - ?d \<Longrightarrow> \<exists>i\<in>set V. f < i \<and> i \<le> f + 5"
    and prev: "\<forall>r\<in>set ?rs. fst r < s \<and> snd r - 2 \<le> s"
    and first: "\<exists>f\<in>set V. 1 \<le> f \<and> f \<le> k \<and> s = max 1 (f - 4)"
    by (simp_all add: open_ok_def)
  have 1: "\<forall>r\<in>set ?rs. range_ok V (k + 1) r"
    using ok by (rule ranges_ok_step)
  have 2: "covered V (k + 1) ?rs (Some s)"
    unfolding covered_def
  proof (intro ballI impI)
    fix f assume f: "f \<in> set V" "1 \<le> f \<and> f \<le> k + 1"
    show "(\<exists>r\<in>set ?rs. fst r \<le> f \<and> f \<le> snd r) \<or> (\<exists>s'. Some s = Some s' \<and> s' \<le> f)"
    proof (cases "f = k + 1")
      case True
      then show ?thesis using s d by simp
    next
      case False
      with f cov show ?thesis by (simp add: covered_def)
    qed
  qed
  have 3: "open_ok V (k + 1) ?rs 1 s"
    unfolding open_ok_def
  proof (intro conjI ballI impI allI)
    show "k + 1 + 1 - 1 \<in> set V" using hit by (simp add: add.commute)
    show "s \<le> k + 1 + 1 - 1" using s d by simp
    show "1 \<le> s" by fact
  next
    fix f assume f: "f \<in> set V" "s \<le> f \<and> f \<le> k + 1"
    show "s \<le> max 1 (f - 4)"
    proof (cases "f = k + 1")
      case True
      have "s \<le> max 1 (k + 1 - ?d - 4)" using lead [OF last] s d by simp
      then show ?thesis using True d by simp
    next
      case False
      with f lead show ?thesis by simp
    qed
  next
    fix f assume f: "f \<in> set V" "s \<le> f \<and> f < k + 1 + 1 - 1"
    show "\<exists>i\<in>set V. f < i \<and> i \<le> f + 5"
    proof (cases "f < k + 1 - ?d")
      case True
      with f gap show ?thesis by simp
    next
      case False
      with f none [of f] have "f = k + 1 - ?d" by (cases "f \<le> k + 1 - ?d") auto
      then have "f < k + 1 \<and> k + 1 \<le> f + 5" using d by simp
      with hit show ?thesis by blast
    qed
  next
    fix r assume "r \<in> set ?rs"
    with prev show "fst r < s" "snd r - 2 \<le> s" by auto
  next
    from first obtain f where "f \<in> set V" "1 \<le> f" "f \<le> k" "s = max 1 (f - 4)" by blast
    then show "\<exists>f\<in>set V. 1 \<le> f \<and> f \<le> k + 1 \<and> s = max 1 (f - 4)"
      by (intro bexI [of _ f]) auto
  qed auto
  show ?thesis
    using 1 2 3 srt cur snd by (simp add: sweep_inv_def)
qed

lemma sweep_inv_open_wait:
  assumes inv: "sweep_inv V k st" and k: "0 \<le> k"
    and cur: "fst (current_range st) = Some s" and miss: "k + 1 \<notin> set V"
    and small: "lines_since_last_violation st \<le> 4"
  shows "sweep_inv V (k + 1)
    (st\<lparr>lines_since_last_violation := lines_since_last_violation st + 1\<rparr>)"
proof -
  let ?rs = "snippet_ranges_acc st"
  let ?d = "lines_since_last_violation st"
  from inv cur have ok: "\<forall>r\<in>set ?rs. range_ok V k r" and srt: "sorted_wrt before ?rs"
    and cov: "covered V k ?rs (Some s)" and opn: "open_ok V k ?rs ?d s"
    and snd: "snd (current_range st) = None"
    by (simp_all add: sweep_inv_def)
  from opn have d: "1 \<le> ?d" "?d \<le> 5" and last: "k + 1 - ?d \<in> set V"
    and s: "1 \<le> s" "s \<le> k + 1 - ?d"
    and none: "\<And>j. k + 1 - ?d < j \<Longrightarrow> j \<le> k \<Longrightarrow> j \<notin> set V"
    and lead: "\<And>f. f \<in> set V \<Longrightarrow> s \<le> f \<Longrightarrow> f \<le> k \<Longrightarrow> s \<le> max 1 (f - 4)"
    and gap: "\<And>f. f \<in> set V \<Longrightarrow> s \<le> f \<Longrightarrow> f < k + 1 - ?d \<Longrightarrow> \<exists>i\<in>set V. f < i \<and> i \<le> f + 5"
    and prev: "\<forall>r\<in>set ?rs. fst r < s \<and> snd r - 2 \<le> s"
    and first: "\<exists>f\<in>set V. 1 \<le> f \<and> f \<le> k \<and> s = max 1 (f - 4)"
    by (simp_all add: open_ok_def)
  have 1: "\<forall>r\<in>set ?rs. range_ok V (k + 1) r"
    using ok by (rule ranges_ok_step)
  have 2: "covered V (k + 1) ?rs (Some s)"
    unfolding covered_def
  proof (intro ballI impI)
    fix f assume f: "f \<in> set V" "1 \<le> f \<and> f \<le> k + 1"
    with miss have "f \<le> k" by (cases "f = k + 1") auto
    with f cov show "(\<exists>r\<in>set ?rs. fst r \<le> f \<and> f \<le> snd r) \<or> (\<exists>s'. Some s = Some s' \<and> s' \<le> f)"
      by (simp add: covered_def)
  qed
  have eq: "k + 1 + 1 - (?d + 1) = k + 1 - ?d" by simp
  have 3: "open_ok V (k + 1) ?rs (?d + 1) s"
    unfolding open_ok_def eq
  proof (intro conjI ballI impI allI)
    fix j assume j: "k + 1 - ?d < j \<and> j \<le> k + 1"
    show "j \<notin> set V"
    proof (cases "j = k + 1")
      case True
      with miss show ?thesis by simp
    next
      case False
      with j none show ?thesis by simp
    qed
  next
    fix f assume f: "f \<in> set V" "s \<le> f \<and> f \<le> k + 1"
    with miss have "f \<le> k" by (cases "f = k + 1") auto
    with f lead show "s \<le> max 1 (f - 4)" by simp
  next
    fix f assume f: "f \<in> set V" "s \<le> f \<and> f < k + 1 - ?d"
    with gap show "\<exists>i\<in>set V. f < i \<and> i \<le> f + 5" by simp
  next
    fix r assume "r \<in> set ?rs"
    with prev show "fst r < s" "snd r - 2 \<le> s" by auto
  next
    from first obtain f where "f \<in> set V" "1 \<le> f" "f \<le> k" "s = max 1 (f - 4)" by blast
    then show "\<exists>f\<in>set V. 1 \<le> f \<and> f \<le> k + 1 \<and> s = max 1 (f - 4)"
      by (intro bexI [of _ f]) auto
  qed (use d small last s in auto)
  show ?thesis
    using 1 2 3 srt cur snd by (simp add: sweep_inv_def)
qed


lemma sweep_inv_open_close:
  assumes inv: "sweep_inv V k st" and k: "0 \<le> k" and n: "k + 1 \<le> n"
    and cur: "fst (current_range st) = Some s" and miss: "k + 1 \<notin> set V"
    and large: "lines_since_last_violation st > 4"
  shows "sweep_inv V (k + 1)
    (st\<lparr>snippet_ranges_acc := snippet_ranges_acc st @
          [(s, min n (k + 1 - lines_since_last_violation st + 4))],
       current_range := (None, None),
       lines_since_last_violation := lines_since_last_violation st + 1\<rparr>)"
proof -
  let ?rs = "snippet_ranges_acc st"
  let ?d = "lines_since_last_violation st"
  from inv cur have ok: "\<forall>r\<in>set ?rs. range_ok V k r" and srt: "sorted_wrt before ?rs"
    and cov: "covered V k ?rs (Some s)" and opn: "open_ok V k ?rs ?d s"
    by (simp_all add: sweep_inv_def)
  from opn have d: "1 \<le> ?d" "?d \<le> 5" and last: "k + 1 - ?d \<in> set V"
    and s: "1 \<le> s" "s \<le> k + 1 - ?d"
    and none: "\<And>j. k + 1 - ?d < j \<Longrightarrow> j \<le> k \<Longrightarrow> j \<notin> set V"
    and lead: "\<And>f. f \<in> set V \<Longrightarrow> s \<le> f \<Longrightarrow> f \<le> k \<Longrightarrow> s \<le> max 1 (f - 4)"
    and gap: "\<And>f. f \<in> set V \<Longrightarrow> s \<le> f \<Longrightarrow> f < k + 1 - ?d \<Longrightarrow> \<exists>i\<in>set V. f < i \<and> i \<le> f + 5"
    and prev: "\<forall>r\<in>set ?rs. fst r < s \<and> snd r - 2 \<le> s"
    and first: "\<exists>f\<in>set V. 1 \<le> f \<and> f \<le> k \<and> s = max 1 (f - 4)"
    by (simp_all add: open_ok_def)
  from d large have d5: "?d = 5" by simp
  with n have e: "min n (k + 1 - ?d + 4) = k" by simp
  have le: "\<And>f. f \<in> set V \<Longrightarrow> f \<le> k \<Longrightarrow> f \<le> k - 4"
  proof -
    fix f assume "f \<in> set V" "f \<le> k"
    with none [of f] d5 show "f \<le> k - 4" by (cases "f \<le> k - 4") auto
  qed
  have new: "range_ok V (k + 1) (s, k)"
    unfolding range_ok_def
  proof (intro conjI ballI impI)
    fix f assume f: "f \<in> set V" "fst (s, k) \<le> f \<and> f \<le> snd (s, k)"
    then show "fst (s, k) \<le> max 1 (f - 4)" using lead [of f] by simp
    from f le [of f] show "f + 4 \<le> snd (s, k)" by simp
  next
    fix f assume f: "f \<in> set V" "fst (s, k) \<le> f \<and> f + 4 < snd (s, k)"
    then show "\<exists>i\<in>set V. f < i \<and> i \<le> f + 5" using gap [of f] d5 by simp
  next
    show "\<exists>f\<in>set V. 1 \<le> f \<and> f \<le> snd (s, k) \<and> fst (s, k) = max 1 (f - 4)"
      using first by simp
    show "snd (s, k) - 4 \<in> set V"
      using last d5 by (simp add: algebra_simps)
  qed (use s d5 in auto)
  have 1: "\<forall>r\<in>set (?rs @ [(s, k)]). range_ok V (k + 1) r"
    using ranges_ok_step [OF ok] new by simp
  have "\<forall>r\<in>set ?rs. before r (s, k)"
  proof
    fix r assume r: "r \<in> set ?rs"
    with ok have "range_ok V k r" by blast
    then have "snd r < k" by (simp add: range_ok_def)
    with prev r show "before r (s, k)" by (simp add: before_def)
  qed
  with srt have 2: "sorted_wrt before (?rs @ [(s, k)])"
    by (simp add: sorted_wrt_append)
  have 3: "covered V (k + 1) (?rs @ [(s, k)]) None"
    unfolding covered_def
  proof (intro ballI impI)
    fix f assume f: "f \<in> set V" "1 \<le> f \<and> f \<le> k + 1"
    with miss have fk: "f \<le> k" by (cases "f = k + 1") auto
    with f cov have "(\<exists>r\<in>set ?rs. fst r \<le> f \<and> f \<le> snd r) \<or> s \<le> f"
      by (simp add: covered_def)
    with fk show "(\<exists>r\<in>set (?rs @ [(s, k)]). fst r \<le> f \<and> f \<le> snd r) \<or>
        (\<exists>s'. None = Some s' \<and> s' \<le> f)"
      by auto
  qed
  have 4: "idle_ok V (k + 1)"
    unfolding idle_ok_def
  proof (intro allI impI)
    fix j assume j: "1 \<le> j \<and> k + 1 - 4 \<le> j \<and> j \<le> k + 1"
    show "j \<notin> set V"
    proof (cases "j = k + 1")
      case True
      with miss show ?thesis by simp
    next
      case False
      with j none [of j] d5 show ?thesis by simp
    qed
  qed
  show ?thesis
    unfolding e using 1 2 3 4 by (simp add: sweep_inv_def)
qed

lemma sweep_line_inv:
  assumes inv: "sweep_inv V k st" and k: "0 \<le> k" and n: "k + 1 \<le> n"
  shows "sweep_inv V (k + 1) (sweep_line n V (k + 1) st)"
proof (cases "fst (current_range st)")
  case None
  with inv have cur: "current_range st = (None, None)"
    by (simp add: sweep_inv_def prod_eq_iff)
  show ?thesis
  proof (cases "k + 1 \<in> set V")
    case True
    then show ?thesis
      using sweep_inv_idle_hit [OF inv k None True] by (simp add: sweep_line_idle_hit [OF cur])
  next
    case False
    then show ?thesis
      using sweep_inv_idle_miss [OF inv k None False] by (simp add: sweep_line_idle_miss [OF cur])
  qed
next
  case (Some s)
  with inv have cur: "current_range st = (Some s, None)"
    by (simp add: sweep_inv_def prod_eq_iff)
  show ?thesis
  proof (cases "k + 1 \<in> set V")
    case True
    then show ?thesis
      using sweep_inv_open_hit [OF inv k Some True] by (simp add: sweep_line_open_hit [OF cur])
  next
    case False
    show ?thesis
    proof (cases "lines_since_last_violation st \<le> 4")
      case True
      then show ?thesis
        using sweep_inv_open_wait [OF inv k Some False True]
        by (simp add: sweep_line_open_wait [OF cur False])
    next
      case False
      then have large: "lines_since_last_violation st > 4" by simp
      show ?thesis
        using sweep_inv_open_close [OF inv k n Some \<open>k + 1 \<notin> set V\<close> large]
        by (simp add: sweep_line_open_close [OF cur \<open>k + 1 \<notin> set V\<close> large])
    qed
  qed
qed

lemma sweep_inv_sweep: "0 \<le> k \<Longrightarrow> k \<le> n \<Longrightarrow> sweep_inv V k (sweep n V k)"
proof (induction k rule: int_ge_induct)
  case base
  show ?case by (simp add: sweep_nonpos sweep_inv_init)
next
  case (step i)
  then show ?case by (simp add: sweep_Suc sweep_line_inv)
qed

section \<open>What the invariant says about the returned ranges\<close>

lemma snippet_ranges_nonpos: "n \<le> 0 \<Longrightarrow> snippet_ranges n V = []"
  by (simp add: snippet_ranges_def sweep_nonpos sweep_init_def)

lemma snippet_ranges_final:
  assumes "0 \<le> n"
  shows "snippet_ranges n V =
    (case fst (current_range (sweep n V n)) of
       None \<Rightarrow> snippet_ranges_acc (sweep n V n)
     | Some s \<Rightarrow> snippet_ranges_acc (sweep n V n) @ [(s, n)])"
proof -
  have "snd (current_range (sweep n V n)) = None"
    using sweep_inv_sweep [OF assms, of n V] by (simp add: sweep_inv_def)
  then show ?thesis
    by (cases "current_range (sweep n V n)") (simp add: snippet_ranges_def split: option.splits)
qed

lemma range_ok_result:
  assumes "range_ok V k r" "k \<le> n"
  shows "result_ok V n r"
proof -
  from assms have b: "1 \<le> fst r" "fst r + 4 \<le> snd r" "snd r + 1 \<le> n"
    and c2: "\<forall>f\<in>set V. fst r \<le> f \<and> f \<le> snd r \<longrightarrow> fst r \<le> max 1 (f - 4) \<and> f + 4 \<le> snd r"
    and gap: "\<forall>f\<in>set V. fst r \<le> f \<and> f + 4 < snd r \<longrightarrow> (\<exists>i\<in>set V. f < i \<and> i \<le> f + 5)"
    and first: "\<exists>f\<in>set V. 1 \<le> f \<and> f \<le> snd r \<and> fst r = max 1 (f - 4)"
    and last: "snd r - 4 \<in> set V"
    by (simp_all add: range_ok_def)
  from first b have 1: "\<exists>f\<in>set V. 1 \<le> f \<and> f \<le> n \<and> fst r = max 1 (f - 4)"
    by force
  from b have "1 \<le> snd r - 4 \<and> snd r - 4 \<le> n \<and> snd r = min n (snd r - 4 + 4)"
    by simp
  with last have 2: "\<exists>f\<in>set V. 1 \<le> f \<and> f \<le> n \<and> snd r = min n (f + 4)"
    by blast
  from c2 have 3: "\<forall>f\<in>set V. fst r \<le> f \<and> f \<le> snd r \<longrightarrow>
      fst r \<le> max 1 (f - 4) \<and> min n (f + 4) \<le> snd r"
    by auto
  show ?thesis
    unfolding result_ok_def using b 1 2 3 gap by simp
qed

lemma open_ok_result:
  assumes "open_ok V n rs d s"
  shows "result_ok V n (s, n)"
proof -
  let ?l = "n + 1 - d"
  from assms have d: "1 \<le> d" "d \<le> 5" and last: "?l \<in> set V"
    and s: "1 \<le> s" "s \<le> ?l"
    and none: "\<And>j. ?l < j \<Longrightarrow> j \<le> n \<Longrightarrow> j \<notin> set V"
    and lead: "\<And>f. f \<in> set V \<Longrightarrow> s \<le> f \<Longrightarrow> f \<le> n \<Longrightarrow> s \<le> max 1 (f - 4)"
    and gap: "\<And>f. f \<in> set V \<Longrightarrow> s \<le> f \<Longrightarrow> f < ?l \<Longrightarrow> \<exists>i\<in>set V. f < i \<and> i \<le> f + 5"
    and first: "\<exists>f\<in>set V. 1 \<le> f \<and> f \<le> n \<and> s = max 1 (f - 4)"
    by (simp_all add: open_ok_def)
  from s d have "1 \<le> ?l \<and> ?l \<le> n \<and> n = min n (?l + 4)" by simp
  with last have 2: "\<exists>f\<in>set V. 1 \<le> f \<and> f \<le> n \<and> n = min n (f + 4)"
    by blast
  have 3: "\<forall>f\<in>set V. s \<le> f \<and> f \<le> n \<longrightarrow> s \<le> max 1 (f - 4) \<and> min n (f + 4) \<le> n"
    using lead by simp
  have 4: "\<forall>f\<in>set V. s \<le> f \<and> f + 4 < n \<longrightarrow> (\<exists>i\<in>set V. f < i \<and> i \<le> f + 5)"
  proof (intro ballI impI)
    fix f assume f: "f \<in> set V" "s \<le> f \<and> f + 4 < n"
    with d have "f < ?l" by simp
    with f gap show "\<exists>i\<in>set V. f < i \<and> i \<le> f + 5" by simp
  qed
  show ?thesis
    unfolding result_ok_def using s d first 2 3 4 by simp
qed

lemma snippet_ranges_result_ok: "\<forall>r\<in>set (snippet_ranges n V). result_ok V n r"
proof (cases "0 \<le> n")
  case False
  then show ?thesis by (simp add: snippet_ranges_nonpos)
next
  case True
  let ?st = "sweep n V n"
  have inv: "sweep_inv V n ?st" using True by (simp add: sweep_inv_sweep)
  then have ok: "\<forall>r\<in>set (snippet_ranges_acc ?st). result_ok V n r"
    using range_ok_result [of V n _ n] by (simp add: sweep_inv_def)
  show ?thesis
  proof (cases "fst (current_range ?st)")
    case None
    with ok show ?thesis by (simp add: snippet_ranges_final [OF True])
  next
    case (Some s)
    with inv have "open_ok V n (snippet_ranges_acc ?st) (lines_since_last_violation ?st) s"
      by (simp add: sweep_inv_def)
    then have "result_ok V n (s, n)" by (rule open_ok_result)
    with ok Some show ?thesis by (simp add: snippet_ranges_final [OF True])
  qed
qed

lemma snippet_ranges_sorted: "sorted_wrt before (snippet_ranges n V)"
proof (cases "0 \<le> n")
  case False
  then show ?thesis by (simp add: snippet_ranges_nonpos)
next
  case True
  let ?st = "sweep n V n"
  have inv: "sweep_inv V n ?st" using True by (simp add: sweep_inv_sweep)
  then have srt: "sorted_wrt before (snippet_ranges_acc ?st)"
    and ok: "\<forall>r\<in>set (snippet_ranges_acc ?st). range_ok V n r"
    by (simp_all add: sweep_inv_def)
  show ?thesis
  proof (cases "fst (current_range ?st)")
    case None
    with srt show ?thesis by (simp add: snippet_ranges_final [OF True])
  next
    case (Some s)
    with inv have "open_ok V n (snippet_ranges_acc ?st) (lines_since_last_violation ?st) s"
      by (simp add: sweep_inv_def)
    then have prev: "\<forall>r\<in>set (snippet_ranges_acc ?st). fst r < s \<and> snd r - 2 \<le> s"
      by (simp add: open_ok_def)
    have "\<forall>r\<in>set (snippet_ranges_acc ?st). before r (s, n)"
    proof
      fix r assume r: "r \<in> set (snippet_ranges_acc ?st)"
      with ok have "range_ok V n r" by blast
      then have "snd r < n" by (simp add: range_ok_def)
      with prev r show "before r (s, n)" by (simp add: before_def)
    qed
    with srt Some show ?thesis
      by (simp add: snippet_ranges_final [OF True] sorted_wrt_append)
  qed
qed

lemma snippet_ranges_covered:
  assumes f: "f \<in> set V" "1 \<le> f" "f \<le> n"
  shows "\<exists>r\<in>set (snippet_ranges n V). fst r \<le> f \<and> f \<le> snd r"
proof -
  have n: "0 \<le> n" using f by simp
  let ?st = "sweep n V n"
  have inv: "sweep_inv V n ?st" using n by (simp add: sweep_inv_sweep)
  then have "covered V n (snippet_ranges_acc ?st) (fst (current_range ?st))"
    by (simp add: sweep_inv_def)
  with f have cov: "(\<exists>r\<in>set (snippet_ranges_acc ?st). fst r \<le> f \<and> f \<le> snd r) \<or>
      (\<exists>s. fst (current_range ?st) = Some s \<and> s \<le> f)"
    by (simp add: covered_def)
  show ?thesis
  proof (cases "fst (current_range ?st)")
    case None
    with cov show ?thesis by (simp add: snippet_ranges_final [OF n])
  next
    case (Some s)
    with cov f show ?thesis by (auto simp add: snippet_ranges_final [OF n])
  qed
qed

lemma sorted_wrt_related:
  "sorted_wrt P xs \<Longrightarrow> x \<in> set xs \<Longrightarrow> y \<in> set xs \<Longrightarrow> x = y \<or> P x y \<or> P y x"
  by (induction xs) auto

lemma snippet_ranges_member_ok:
  "r \<in> set (snippet_ranges n V) \<Longrightarrow> result_ok V n r"
  using snippet_ranges_result_ok by blast

section \<open>Properties of the ranges\<close>

text \<open>
  C6. Every range \<open>(start, end)\<close> produced by \<open>_snippet_ranges\<close> is well-formed:
  \<open>start \<ge> 1\<close>, \<open>start \<le> end\<close> and \<open>end \<le> num_src_lines\<close>.
\<close>

theorem snippet_ranges_well_formed:
  assumes "(s, e) \<in> set (snippet_ranges num_src_lines violation_lines)"
  shows "1 \<le> s \<and> s \<le> e \<and> e \<le> num_src_lines"
  using snippet_ranges_member_ok [OF assms] by (simp add: result_ok_def)

theorem snippet_ranges_well_formed_witness:
  "(1, 9) \<in> set (snippet_ranges 10 [2, 3, 4, 5]) \<and> (1::int) \<le> 1 \<and> (1::int) \<le> 9 \<and> (9::int) \<le> 10"
proof -
  have h: "(1, 9) \<in> set (snippet_ranges 10 [2, 3, 4, 5])" by code_simp
  show ?thesis using h snippet_ranges_well_formed [OF h] by simp
qed

text \<open>
  C2. For every flagged line \<open>f\<close> that lies inside a produced range \<open>(s, e)\<close>:
  \<open>s \<le> max(1, f - 4)\<close> and \<open>e \<ge> min(num_src_lines, f + 4)\<close>, where 4 is
  \<open>NUM_CONTEXT_LINES\<close>.
\<close>

theorem snippet_ranges_context:
  assumes "(s, e) \<in> set (snippet_ranges num_src_lines violation_lines)"
    and "f \<in> set violation_lines" and "s \<le> f" and "f \<le> e"
  shows "s \<le> max 1 (f - NUM_CONTEXT_LINES) \<and> min num_src_lines (f + NUM_CONTEXT_LINES) \<le> e"
proof -
  have "\<forall>f\<in>set violation_lines. s \<le> f \<and> f \<le> e \<longrightarrow>
      s \<le> max 1 (f - 4) \<and> min num_src_lines (f + 4) \<le> e"
    using snippet_ranges_member_ok [OF assms(1)] by (simp add: result_ok_def)
  with assms(2-4) show ?thesis by (simp add: NUM_CONTEXT_LINES_def)
qed

theorem snippet_ranges_context_witness:
  "(56, 66) \<in> set (snippet_ranges 100 [30, 31, 32, 35, 36, 60, 62]) \<and>
   60 \<in> set [30, 31, 32, 35, 36, 60, 62 :: int] \<and> (56::int) \<le> 60 \<and> (60::int) \<le> 66 \<and>
   56 \<le> max 1 (60 - NUM_CONTEXT_LINES) \<and> min 100 (60 + NUM_CONTEXT_LINES) \<le> 66"
proof -
  have h: "(56, 66) \<in> set (snippet_ranges 100 [30, 31, 32, 35, 36, 60, 62])" by code_simp
  have m: "60 \<in> set [30, 31, 32, 35, 36, 60, 62 :: int]" by simp
  show ?thesis using h m snippet_ranges_context [OF h m] by simp
qed


text \<open>
  C1, as the code has it. The returned list is sorted strictly ascending by start, and
  no flagged line belongs to two returned ranges. Two ranges can share unflagged
  context lines: a range starts at most 2 lines before the end of an earlier one, so
  at most 3 line numbers are shared.
\<close>

theorem snippet_ranges_ascending:
  "sorted_wrt (<) (map fst (snippet_ranges num_src_lines violation_lines)) \<and>
   sorted_wrt (\<lambda>r1 r2. snd r1 - 2 \<le> fst r2) (snippet_ranges num_src_lines violation_lines) \<and>
   (\<forall>r1\<in>set (snippet_ranges num_src_lines violation_lines).
    \<forall>r2\<in>set (snippet_ranges num_src_lines violation_lines).
    \<forall>f\<in>set violation_lines.
      fst r1 \<le> f \<and> f \<le> snd r1 \<and> fst r2 \<le> f \<and> f \<le> snd r2 \<longrightarrow> r1 = r2)"
proof (intro conjI ballI impI)
  let ?rs = "snippet_ranges num_src_lines violation_lines"
  have srt: "sorted_wrt before ?rs" by (rule snippet_ranges_sorted)
  have "sorted_wrt (\<lambda>r1 r2. fst r1 < fst r2) ?rs"
    by (rule sorted_wrt_mono_rel [OF _ srt]) (simp add: before_def)
  then show "sorted_wrt (<) (map fst ?rs)" by (simp add: sorted_wrt_map)
  show "sorted_wrt (\<lambda>r1 r2. snd r1 - 2 \<le> fst r2) ?rs"
    by (rule sorted_wrt_mono_rel [OF _ srt]) (simp add: before_def)
  fix r1 r2 f
  assume r1: "r1 \<in> set ?rs" and r2: "r2 \<in> set ?rs" and f: "f \<in> set violation_lines"
    and both: "fst r1 \<le> f \<and> f \<le> snd r1 \<and> fst r2 \<le> f \<and> f \<le> snd r2"
  have far: "\<not> before p q"
    if p: "p \<in> set ?rs" and q: "q \<in> set ?rs"
      and fp: "fst p \<le> f" "f \<le> snd p" and fq: "fst q \<le> f" "f \<le> snd q" for p q
  proof
    assume b: "before p q"
    have "min num_src_lines (f + 4) \<le> snd p"
      using snippet_ranges_member_ok [OF p] f fp by (simp add: result_ok_def)
    moreover have "snd q \<le> num_src_lines"
      using snippet_ranges_member_ok [OF q] by (simp add: result_ok_def)
    ultimately show False using b fq by (simp add: before_def min_def split: if_splits)
  qed
  from sorted_wrt_related [OF srt r1 r2] far [OF r1 r2] far [OF r2 r1] both
  show "r1 = r2" by blast
qed

theorem snippet_ranges_ascending_witness:
  "sorted_wrt (<) (map fst (snippet_ranges 20 [1, 7])) \<and>
   sorted_wrt (\<lambda>r1 r2. snd r1 - 2 \<le> fst r2) (snippet_ranges 20 [1, 7]) \<and>
   (3, 11) \<in> set (snippet_ranges 20 [1, 7]) \<and> 7 \<in> set [1, 7 :: int] \<and>
   (3::int) \<le> 7 \<and> (7::int) \<le> 11"
proof -
  have h: "(3, 11) \<in> set (snippet_ranges 20 [1, 7])" by code_simp
  show ?thesis using h snippet_ranges_ascending [of 20 "[1, 7]"] by simp
qed

text \<open>
  The claim C1 as stated fails: with lines 1 and 7 flagged in a file of 20 lines the two
  returned ranges share the lines 3, 4 and 5.
\<close>

theorem snippet_ranges_overlap_counterexample:
  "snippet_ranges 20 [1, 7] = [(1, 5), (3, 11)] \<and>
   (\<exists>r1\<in>set (snippet_ranges 20 [1, 7]). \<exists>r2\<in>set (snippet_ranges 20 [1, 7]).
      r1 \<noteq> r2 \<and> (\<exists>l. fst r1 \<le> l \<and> l \<le> snd r1 \<and> fst r2 \<le> l \<and> l \<le> snd r2))"
proof -
  have e: "snippet_ranges 20 [1, 7] = [(1, 5), (3, 11)]" by code_simp
  have "(1, 5) \<noteq> (3, 11 :: int) \<and> fst (1, 5 :: int) \<le> (4::int) \<and> 4 \<le> snd (1 :: int, 5 :: int)
      \<and> fst (3 :: int, 11 :: int) \<le> (4::int) \<and> 4 \<le> snd (3 :: int, 11 :: int)"
    by simp
  then show ?thesis unfolding e by (intro conjI refl) fastforce
qed

text \<open>
  C3. Gap tolerance is strictly-greater-than. Two flagged lines of the file with exactly
  4 (\<open>MAX_GAP_IN_SNIPPET\<close>) unflagged lines between them lie in one returned range; with
  5 or more unflagged lines between them (and no flagged line) each lies in a returned
  range but no returned range holds both. Flagged lines \<open>{30,31,32,35,36,60,62}\<close>
  over 100 lines give exactly \<open>(26,40)\<close> and \<open>(56,66)\<close>.
\<close>

theorem snippet_ranges_gap:
  "(f \<in> set violation_lines \<and> g \<in> set violation_lines \<and> 1 \<le> f \<and> g \<le> num_src_lines \<and>
    (\<forall>j. f < j \<and> j < g \<longrightarrow> j \<notin> set violation_lines) \<longrightarrow>
      (g = f + MAX_GAP_IN_SNIPPET + 1 \<longrightarrow>
         (\<exists>r\<in>set (snippet_ranges num_src_lines violation_lines). fst r \<le> f \<and> g \<le> snd r)) \<and>
      (g > f + MAX_GAP_IN_SNIPPET + 1 \<longrightarrow>
         (\<exists>r\<in>set (snippet_ranges num_src_lines violation_lines). fst r \<le> f \<and> f \<le> snd r) \<and>
         (\<exists>r\<in>set (snippet_ranges num_src_lines violation_lines). fst r \<le> g \<and> g \<le> snd r) \<and>
         \<not> (\<exists>r\<in>set (snippet_ranges num_src_lines violation_lines).
               fst r \<le> f \<and> f \<le> snd r \<and> fst r \<le> g \<and> g \<le> snd r))) \<and>
   snippet_ranges 100 [30, 31, 32, 35, 36, 60, 62] = [(26, 40), (56, 66)]"
proof (intro conjI impI)
  show "snippet_ranges 100 [30, 31, 32, 35, 36, 60, 62] = [(26, 40), (56, 66)]"
    by code_simp
next
  let ?rs = "snippet_ranges num_src_lines violation_lines"
  assume a: "f \<in> set violation_lines \<and> g \<in> set violation_lines \<and> 1 \<le> f \<and> g \<le> num_src_lines \<and>
    (\<forall>j. f < j \<and> j < g \<longrightarrow> j \<notin> set violation_lines)"
  assume "g = f + MAX_GAP_IN_SNIPPET + 1"
  then have g: "g = f + 5" by (simp add: MAX_GAP_IN_SNIPPET_def)
  from a g obtain r1 where r1: "r1 \<in> set ?rs" "fst r1 \<le> f" "f \<le> snd r1"
    using snippet_ranges_covered [of f violation_lines num_src_lines] by auto
  from a g obtain r2 where r2: "r2 \<in> set ?rs" "fst r2 \<le> g" "g \<le> snd r2"
    using snippet_ranges_covered [of g violation_lines num_src_lines] by auto
  have "min num_src_lines (f + 4) \<le> snd r1"
    using snippet_ranges_member_ok [OF r1(1)] a r1 by (simp add: result_ok_def)
  with a g have e1: "f + 4 \<le> snd r1" by simp
  have "fst r2 \<le> max 1 (g - 4)"
    using snippet_ranges_member_ok [OF r2(1)] a r2 by (simp add: result_ok_def)
  with a g have s2: "fst r2 \<le> f + 1" by simp
  have "r1 = r2 \<or> before r1 r2 \<or> before r2 r1"
    using sorted_wrt_related [OF snippet_ranges_sorted r1(1) r2(1)] .
  with e1 s2 r1 r2 g have "r1 = r2" by (auto simp: before_def)
  with r1 r2 show "\<exists>r\<in>set ?rs. fst r \<le> f \<and> g \<le> snd r" by blast
next
  let ?rs = "snippet_ranges num_src_lines violation_lines"
  assume a: "f \<in> set violation_lines \<and> g \<in> set violation_lines \<and> 1 \<le> f \<and> g \<le> num_src_lines \<and>
    (\<forall>j. f < j \<and> j < g \<longrightarrow> j \<notin> set violation_lines)"
  assume "g > f + MAX_GAP_IN_SNIPPET + 1"
  then have g: "f + 5 < g" by (simp add: MAX_GAP_IN_SNIPPET_def)
  from a g show "\<exists>r\<in>set ?rs. fst r \<le> f \<and> f \<le> snd r"
    using snippet_ranges_covered [of f violation_lines num_src_lines] by auto
  from a g show "\<exists>r\<in>set ?rs. fst r \<le> g \<and> g \<le> snd r"
    using snippet_ranges_covered [of g violation_lines num_src_lines] by auto
  show "\<not> (\<exists>r\<in>set ?rs. fst r \<le> f \<and> f \<le> snd r \<and> fst r \<le> g \<and> g \<le> snd r)"
  proof
    assume "\<exists>r\<in>set ?rs. fst r \<le> f \<and> f \<le> snd r \<and> fst r \<le> g \<and> g \<le> snd r"
    then obtain r where r: "r \<in> set ?rs" "fst r \<le> f" "g \<le> snd r" by blast
    have "\<forall>f\<in>set violation_lines. fst r \<le> f \<and> f + 4 < snd r \<longrightarrow>
        (\<exists>i\<in>set violation_lines. f < i \<and> i \<le> f + 5)"
      using snippet_ranges_member_ok [OF r(1)] by (simp add: result_ok_def)
    with a r g obtain i where "i \<in> set violation_lines" "f < i" "i \<le> f + 5" by force
    with a g show False by auto
  qed
qed

theorem snippet_ranges_gap_witness:
  "(\<exists>r\<in>set (snippet_ranges 20 [1, 6]). fst r \<le> 1 \<and> 6 \<le> snd r) \<and>
   (\<exists>r\<in>set (snippet_ranges 20 [1, 7]). fst r \<le> 1 \<and> 1 \<le> snd r) \<and>
   (\<exists>r\<in>set (snippet_ranges 20 [1, 7]). fst r \<le> 7 \<and> 7 \<le> snd r) \<and>
   \<not> (\<exists>r\<in>set (snippet_ranges 20 [1, 7]). fst r \<le> 1 \<and> 1 \<le> snd r \<and> fst r \<le> 7 \<and> 7 \<le> snd r)"
proof -
  have h1: "(1::int) \<in> set [1, 6] \<and> (6::int) \<in> set [1, 6] \<and> (1::int) \<le> 1 \<and> (6::int) \<le> 20 \<and>
      (\<forall>j. (1::int) < j \<and> j < 6 \<longrightarrow> j \<notin> set [1, 6])"
    by simp
  have h2: "(1::int) \<in> set [1, 7] \<and> (7::int) \<in> set [1, 7] \<and> (1::int) \<le> 1 \<and> (7::int) \<le> 20 \<and>
      (\<forall>j. (1::int) < j \<and> j < 7 \<longrightarrow> j \<notin> set [1, 7])"
    by simp
  have e1: "(6::int) = 1 + MAX_GAP_IN_SNIPPET + 1" by (simp add: MAX_GAP_IN_SNIPPET_def)
  have e2: "(7::int) > 1 + MAX_GAP_IN_SNIPPET + 1" by (simp add: MAX_GAP_IN_SNIPPET_def)
  from snippet_ranges_gap [of 1 "[1, 6]" 6 20] h1 e1
  have 1: "\<exists>r\<in>set (snippet_ranges 20 [1, 6]). fst r \<le> 1 \<and> 6 \<le> snd r" by blast
  from snippet_ranges_gap [of 1 "[1, 7]" 7 20] h2 e2
  have 2: "(\<exists>r\<in>set (snippet_ranges 20 [1, 7]). fst r \<le> 1 \<and> 1 \<le> snd r) \<and>
   (\<exists>r\<in>set (snippet_ranges 20 [1, 7]). fst r \<le> 7 \<and> 7 \<le> snd r) \<and>
   \<not> (\<exists>r\<in>set (snippet_ranges 20 [1, 7]). fst r \<le> 1 \<and> 1 \<le> snd r \<and> fst r \<le> 7 \<and> 7 \<le> snd r)"
    by blast
  from 1 2 show ?thesis by blast
qed


text \<open>
  C4. For a single flagged line \<open>L\<close> with \<open>1 \<le> L \<le> num_src_lines\<close> and no other
  flagged line, \<open>_snippet_ranges\<close> returns exactly one range \<open>(s, e)\<close> with
  \<open>s = max(1, L - 4)\<close> and \<open>e = min(num_src_lines, L + 4)\<close>, whether the range is
  closed inside the sweep or by the step after it.
\<close>

theorem snippet_ranges_single:
  assumes V: "set violation_lines = {L}" and L: "1 \<le> L" "L \<le> num_src_lines"
  shows "snippet_ranges num_src_lines violation_lines =
    [(max 1 (L - NUM_CONTEXT_LINES), min num_src_lines (L + NUM_CONTEXT_LINES))]"
proof -
  let ?rs = "snippet_ranges num_src_lines violation_lines"
  let ?r = "(max 1 (L - 4), min num_src_lines (L + 4))"
  have all: "r = ?r" if "r \<in> set ?rs" for r
    using snippet_ranges_member_ok [OF that] V by (simp add: result_ok_def prod_eq_iff)
  have "\<exists>r\<in>set ?rs. fst r \<le> L \<and> L \<le> snd r"
    using snippet_ranges_covered [of L violation_lines num_src_lines] V L by simp
  then obtain x xs where rs: "?rs = x # xs" by (cases ?rs) auto
  have srt: "sorted_wrt before (x # xs)"
    using snippet_ranges_sorted [of num_src_lines violation_lines] by (simp add: rs)
  have "xs = []"
  proof (cases xs)
    case Nil
    then show ?thesis .
  next
    case (Cons y ys)
    with srt have "before x y" by simp
    moreover have "x = ?r" "y = ?r" using all rs Cons by simp_all
    ultimately show ?thesis by (simp add: before_def)
  qed
  moreover have "x = ?r" using all rs by simp
  ultimately show ?thesis by (simp add: rs NUM_CONTEXT_LINES_def)
qed

theorem snippet_ranges_single_witness:
  "set [10] = {10 :: int} \<and> (1::int) \<le> 10 \<and> (10::int) \<le> 12 \<and>
   snippet_ranges 12 [10] = [(max 1 (10 - NUM_CONTEXT_LINES), min 12 (10 + NUM_CONTEXT_LINES))] \<and>
   set [3] = {3 :: int} \<and> (1::int) \<le> 3 \<and> (3::int) \<le> 12 \<and>
   snippet_ranges 12 [3] = [(max 1 (3 - NUM_CONTEXT_LINES), min 12 (3 + NUM_CONTEXT_LINES))]"
  using snippet_ranges_single [of "[10]" 10 12] snippet_ranges_single [of "[3]" 3 12] by simp

lemma snippet_ranges_one_line:
  "snippet_ranges 1 V = (if 1 \<in> set V then [(1, 1)] else [])"
proof -
  have "sweep 1 V 1 = sweep_line 1 V 1 sweep_init"
    using sweep_Suc [of 0 1 V] by (simp add: sweep_nonpos)
  then show ?thesis
    by (simp add: snippet_ranges_def sweep_line_def sweep_init_def NUM_CONTEXT_LINES_def)
qed

text \<open>
  C5, as the code has it. \<open>_snippet_ranges\<close> returns the empty list for every
  \<open>num_src_lines\<close> when no line is flagged, and for every flagged-line input when
  \<open>num_src_lines = 0\<close>. A zero-length source text is split into one (empty) line, so
  extraction from it calls \<open>_snippet_ranges\<close> with \<open>num_src_lines = 1\<close>: it yields
  zero snippets exactly when line 1 is not flagged, and otherwise one snippet with
  empty text that starts at line 1.
\<close>

theorem snippet_ranges_empty:
  "snippet_ranges num_src_lines [] = [] \<and>
   snippet_ranges 0 violation_lines = [] \<and>
   load_snippets (fs(src_path \<mapsto> [])) src_path violation_lines =
     Inr (if 1 \<in> set violation_lines
          then [\<lparr>snippet_src_str = [], snippet_src_filename = src_path,
                  snippet_start_line = 1, snippet_violation_lines = violation_lines\<rparr>]
          else [])"
proof (intro conjI)
  have "\<forall>r\<in>set (snippet_ranges num_src_lines []). False"
    using snippet_ranges_result_ok [of num_src_lines "[]"] by (simp add: result_ok_def)
  then show "snippet_ranges num_src_lines [] = []"
    by (cases "snippet_ranges num_src_lines []") auto
  show "snippet_ranges 0 violation_lines = []"
    by (simp add: snippet_ranges_nonpos)
  show "load_snippets (fs(src_path \<mapsto> [])) src_path violation_lines =
     Inr (if 1 \<in> set violation_lines
          then [\<lparr>snippet_src_str = [], snippet_src_filename = src_path,
                  snippet_start_line = 1, snippet_violation_lines = violation_lines\<rparr>]
          else [])"
    by (simp add: load_snippets_def snippet_ranges_one_line Snippet_init_def py_slice_def
        slice_bound_def)
qed

text \<open>
  The claim C5 as stated fails for extraction: the empty file with line 1 flagged
  yields one snippet.
\<close>

theorem load_snippets_empty_text_counterexample:
  "load_snippets [''empty.py'' \<mapsto> ''''] ''empty.py'' [1] =
     Inr [\<lparr>snippet_src_str = '''', snippet_src_filename = ''empty.py'',
            snippet_start_line = 1, snippet_violation_lines = [1]\<rparr>]"
  by (simp add: load_snippets_def snippet_ranges_one_line Snippet_init_def py_slice_def
      slice_bound_def)

text \<open>
  C9. Duplicate flagged-line numbers have no effect: \<open>_snippet_ranges\<close> returns the
  same result on a list and on the list without its duplicates.
\<close>

theorem snippet_ranges_remdups:
  "snippet_ranges num_src_lines (remdups violation_lines) =
   snippet_ranges num_src_lines violation_lines"
proof -
  have "sweep_line num_src_lines (remdups violation_lines) =
      sweep_line num_src_lines violation_lines"
    by (intro ext) (simp only: sweep_line_def set_remdups)
  then show ?thesis by (simp add: snippet_ranges_def sweep_def)
qed

section \<open>Line-number remapping\<close>

text \<open>
  C7. For every list of integers and every start value, \<open>_shift_lines\<close> maps each
  input line \<open>\<ge> start\<close> to \<open>line - start + 1\<close>, drops each input line
  \<open>< start\<close> and keeps the order of the kept elements; \<open>[5,8,9]\<close> with start 3
  becomes \<open>[3,6,7]\<close> and \<open>[1,2]\<close> with start 3 becomes \<open>[]\<close>.
\<close>

theorem shift_lines_remap:
  "shift_lines line_num_list start_line =
     map (\<lambda>line_num. line_num - start_line + 1)
       (filter (\<lambda>line_num. line_num \<ge> start_line) line_num_list)
   \<and> shift_lines [5, 8, 9] 3 = [3, 6, 7]
   \<and> shift_lines [1, 2] 3 = []"
  by (induction line_num_list) simp_all

section \<open>Construction of snippets\<close>

text \<open>
  C8. Snippet construction raises \<open>ValueError\<close> if and only if \<open>start_line < 1\<close>:
  for every \<open>start_line \<le> 0\<close> it raises and produces no snippet, and for every
  \<open>start_line \<ge> 1\<close> it succeeds, whatever the other arguments.
\<close>

theorem Snippet_init_raises_iff:
  "(Snippet_init src_str src_filename start_line violation_lines = Inl ValueError)
     = (start_line < 1) \<and>
   (\<exists>snippet. Snippet_init src_str src_filename start_line violation_lines = Inr snippet)
     = (1 \<le> start_line) \<and>
   (Snippet_init src_str src_filename start_line violation_lines =
      Inr \<lparr>snippet_src_str = src_str, snippet_src_filename = src_filename,
           snippet_start_line = start_line, snippet_violation_lines = violation_lines\<rparr>)
     = (1 \<le> start_line)"
  by (auto simp add: Snippet_init_def)

lemma make_snippets_succeeds:
  "\<forall>r\<in>set ranges. 1 \<le> fst r \<Longrightarrow>
   \<exists>snippets. make_snippets src_lines src_path violation_lines ranges = Inr snippets \<and>
     length snippets = length ranges"
proof (induction ranges)
  case Nil
  show ?case by simp
next
  case (Cons r ranges)
  then obtain snippets where
    "make_snippets src_lines src_path violation_lines ranges = Inr snippets"
    "length snippets = length ranges"
    by auto
  moreover from Cons.prems have "1 \<le> fst r" by simp
  ultimately show ?case by (cases r) (simp add: Snippet_init_def)
qed

text \<open>
  C10. The \<open>start_line < 1\<close> branch of the constructor is unreachable through
  extraction: every range produced by \<open>_snippet_ranges\<close> has start \<open>\<ge> 1\<close>, so
  \<open>load_snippets\<close> never raises \<open>ValueError\<close>, and for every readable source text and
  every flagged-line input it returns one snippet per range.
\<close>

theorem load_snippets_no_ValueError:
  "(\<forall>r\<in>set (snippet_ranges num_src_lines violation_lines). 1 \<le> fst r) \<and>
   load_snippets fs src_path violation_lines \<noteq> Inl ValueError \<and>
   (fs src_path = Some contents \<longrightarrow>
      (\<exists>snippets. load_snippets fs src_path violation_lines = Inr snippets \<and>
         length snippets =
           length (snippet_ranges (int (length (split_newline contents))) violation_lines)))"
proof -
  have start: "\<forall>r\<in>set (snippet_ranges n violation_lines). 1 \<le> fst r" for n
    using snippet_ranges_result_ok [of n violation_lines] by (simp add: result_ok_def)
  have ok: "\<exists>snippets. load_snippets fs src_path violation_lines = Inr snippets \<and>
      length snippets = length (snippet_ranges (int (length (split_newline c))) violation_lines)"
    if "fs src_path = Some c" for c
    using that make_snippets_succeeds [OF start, where src_lines = "split_newline c"]
    by (simp add: load_snippets_def Let_def)
  have "load_snippets fs src_path violation_lines \<noteq> Inl ValueError"
  proof (cases "fs src_path")
    case None
    then show ?thesis by (simp add: load_snippets_def)
  next
    case (Some c)
    from ok [OF this] show ?thesis by auto
  qed
  with start ok show ?thesis by blast
qed

theorem load_snippets_no_ValueError_witness:
  "(3, 11) \<in> set (snippet_ranges 20 [1, 7]) \<and> (1::int) \<le> fst (3 :: int, 11 :: int) \<and>
   [''a.py'' \<mapsto> ''x''] ''a.py'' = Some ''x'' \<and>
   (\<exists>snippets. load_snippets [''a.py'' \<mapsto> ''x''] ''a.py'' [1, 7] = Inr snippets \<and>
      length snippets = length (snippet_ranges (int (length (split_newline ''x''))) [1, 7]))"
proof -
  have h: "(3, 11) \<in> set (snippet_ranges 20 [1, 7])" by code_simp
  have m: "[''a.py'' \<mapsto> ''x''] ''a.py'' = Some ''x''" by simp
  from load_snippets_no_ValueError [of 20 "[1, 7]" "[''a.py'' \<mapsto> ''x'']" "''a.py''" "''x''"] h m
  show ?thesis by simp
qed

end
